theory Spec2Isabelle
  imports Complex_Main "HOL-Library.Sublist" "HOL-Library.Multiset"
begin

section \<open>Strings and numbers of the host language\<close>

text \<open>
  The sources are TypeScript. A string is modelled as a \<^typ>\<open>string\<close> whose characters
  are the code units below 256. An integral number (a pid, a size, a count of seconds) is
  an \<^typ>\<open>int\<close>; the numbers of the host language are IEEE doubles, so every integer the
  code computes from text is rounded to the nearest double (\<open>roundDouble\<close> below). The CPU
  percentage, which the poller reads with \<open>parseFloat\<close>, is a \<^typ>\<open>real\<close>. \<open>NaN\<close> and
  \<open>undefined\<close> are \<open>None\<close>. The built-in operations used by the sources are written out
  below.
\<close>

text \<open>White space as \<open>String.prototype.trim\<close>, \<open>parseInt\<close> and the regular
  expression \<open>\s\<close> see it: among the code units below 256 these are the tab, the line
  feed, the vertical tab, the form feed, the carriage return, the space and the no-break
  space.\<close>

definition isWhiteSpace :: "char \<Rightarrow> bool" where
  "isWhiteSpace c =
     (c = CHR '' '' \<or> c = CHR 0x09 \<or> c = CHR 0x0A \<or> c = CHR 0x0B \<or> c = CHR 0x0C \<or>
      c = CHR 0x0D \<or> c = CHR 0xA0)"

definition trim :: "string \<Rightarrow> string" where
  "trim s = rev (dropWhile isWhiteSpace (rev (dropWhile isWhiteSpace s)))"

definition isDigit :: "char \<Rightarrow> bool" where
  "isDigit c = (48 \<le> (of_char c :: nat) \<and> (of_char c :: nat) \<le> 57)"

definition digitsValue :: "string \<Rightarrow> int" where
  "digitsValue ds = foldl (\<lambda>acc c. acc * 10 + (of_char c - 48)) 0 ds"

text \<open>Rounding of an integer to the nearest double, ties to the even significand: an
  integer of at most 53 bits is a double; a longer one keeps its 53 leading bits, rounded.
  Sums and products of doubles are the rounded exact results. (An integer of magnitude
  \<open>2 ^ 1024\<close> or more has no finite double; the code has \<open>Infinity\<close> there, which the
  model does not represent.)\<close>

fun bitLength :: "nat \<Rightarrow> nat" where
  "bitLength n = (if n = 0 then 0 else Suc (bitLength (n div 2)))"

declare bitLength.simps [simp del]

definition roundDouble :: "int \<Rightarrow> int" where
  "roundDouble n =
     (let a = nat \<bar>n\<bar>;
          len = bitLength a
      in if len \<le> 53 then n
         else (let e = len - 53;
                   q = a div 2 ^ e;
                   r = a mod 2 ^ e;
                   half = 2 ^ (e - 1);
                   q1 = (if r > half \<or> (r = half \<and> odd q) then q + 1 else q)
               in sgn n * int (q1 * 2 ^ e)))"

definition numAdd :: "int \<Rightarrow> int \<Rightarrow> int" where
  "numAdd a b = roundDouble (a + b)"

definition numMul :: "int \<Rightarrow> int \<Rightarrow> int" where
  "numMul a b = roundDouble (a * b)"

text \<open>\<open>parseInt(s, 10)\<close>: leading white space is skipped, one sign is accepted, the
  longest run of decimal digits is read, and \<open>NaN\<close> (here \<open>None\<close>) is the result when
  there is no digit. The result is the double nearest to the number the digits denote.\<close>

definition parseInt :: "string \<Rightarrow> int option" where
  "parseInt s =
     (let s1 = dropWhile isWhiteSpace s;
          neg = (case s1 of c # _ \<Rightarrow> c = CHR ''-'' | [] \<Rightarrow> False);
          s2 = (case s1 of c # t \<Rightarrow> (if c = CHR ''-'' \<or> c = CHR ''+'' then t else s1) | [] \<Rightarrow> s1);
          ds = takeWhile isDigit s2
      in if ds = [] then None
         else Some (roundDouble (if neg then - digitsValue ds else digitsValue ds)))"

text \<open>\<open>x || 0\<close> on a number: \<open>NaN\<close> and \<open>0\<close> both give \<open>0\<close>.\<close>

definition orZero :: "int option \<Rightarrow> int" where
  "orZero v = (case v of None \<Rightarrow> 0 | Some n \<Rightarrow> n)"

text \<open>\<open>s.indexOf(c)\<close>: the first position of \<open>c\<close>, or \<open>-1\<close>.\<close>

definition indexOf :: "string \<Rightarrow> char \<Rightarrow> int" where
  "indexOf s c = (if c \<in> set s then int (length (takeWhile (\<lambda>x. x \<noteq> c) s)) else -1)"

text \<open>\<open>s.substring(a, b)\<close> clamps both positions to the string and swaps them when they
  are out of order; \<open>s.substring(a)\<close> runs to the end.\<close>

definition substring :: "string \<Rightarrow> int \<Rightarrow> int \<Rightarrow> string" where
  "substring s a b =
     (let n = int (length s);
          a' = max 0 (min a n);
          b' = max 0 (min b n);
          lo = min a' b';
          hi = max a' b'
      in take (nat (hi - lo)) (drop (nat lo) s))"

definition substringFrom :: "string \<Rightarrow> int \<Rightarrow> string" where
  "substringFrom s a = drop (nat (max 0 a)) s"

text \<open>\<open>s.split(sep)\<close>: the pieces between the separators, empty pieces included, so the
  result is never empty. \<open>splitBy\<close> takes the separator as a predicate on characters;
  \<open>split\<close> is the case of one separator character and \<open>splitWhiteSpace\<close> the case of the
  regular expression \<open>\s\<close>.\<close>

function splitBy :: "(char \<Rightarrow> bool) \<Rightarrow> string \<Rightarrow> string list" where
  "splitBy isSep s =
     (case dropWhile (\<lambda>c. \<not> isSep c) s of
        [] \<Rightarrow> [s]
      | _ # rest \<Rightarrow> takeWhile (\<lambda>c. \<not> isSep c) s # splitBy isSep rest)"
  by pat_completeness auto
termination
proof (relation "measure (\<lambda>(isSep, s). length s)")
  show "wf (measure (\<lambda>(isSep :: char \<Rightarrow> bool, s :: string). length s))" by simp
next
  fix isSep :: "char \<Rightarrow> bool" and s :: string and x :: char and rest :: string
  assume "dropWhile (\<lambda>c. \<not> isSep c) s = x # rest"
  then have "length (x # rest) \<le> length s"
    by (metis length_dropWhile_le)
  then show "((isSep, rest), (isSep, s)) \<in> measure (\<lambda>(isSep, s). length s)" by simp
qed

declare splitBy.simps [simp del]

definition split :: "char \<Rightarrow> string \<Rightarrow> string list" where
  "split sep s = splitBy (\<lambda>c. c = sep) s"

definition splitWhiteSpace :: "string \<Rightarrow> string list" where
  "splitWhiteSpace s = splitBy isWhiteSpace s"

text \<open>\<open>s.includes(sub)\<close>: \<open>sub\<close> occurs in \<open>s\<close> as a contiguous piece.\<close>

fun includesStr :: "string \<Rightarrow> string \<Rightarrow> bool" where
  "includesStr [] sub = (sub = [])"
| "includesStr (c # cs) sub = (prefix sub (c # cs) \<or> includesStr cs sub)"

section \<open>Process model\<close>

record ProcessInfo =
  pid :: int
  ppid :: int
  pgid :: int
  user :: string
  cpu :: real
  rss :: int
  etime :: string
  etimeSeconds :: int
  command :: string
  args :: string

record ProcessSnapshot =
  timestamp :: int
  processes :: "ProcessInfo list"
  byPid :: "int \<rightharpoonup> ProcessInfo"
  childrenByPpid :: "int \<rightharpoonup> int list"
  pidsByPgid :: "int \<rightharpoonup> int list"

datatype ProcessEventType = Added | Removed | Updated

record ProcessEvent =
  etype :: ProcessEventType
  process :: ProcessInfo
  previous :: "ProcessInfo option"

subsection \<open>Elapsed-time parser\<close>

text \<open>The destructuring assignments of the three branches on \<open>parts.length\<close> are written
  as one conditional per variable; a list of any other length leaves all three at \<open>0\<close>.\<close>

definition parseEtime :: "string \<Rightarrow> int" where
  "parseEtime et =
     (let trimmed = trim et;
          dashIdx = indexOf trimmed CHR ''-'';
          days = (if dashIdx \<noteq> -1 then orZero (parseInt (substring trimmed 0 dashIdx)) else 0);
          rest = (if dashIdx \<noteq> -1 then substringFrom trimmed (dashIdx + 1) else trimmed);
          parts = map (\<lambda>p. orZero (parseInt p)) (split CHR '':'' rest);
          hours = (if length parts = 3 then parts ! 0 else 0);
          minutes = (if length parts = 3 then parts ! 1
                     else if length parts = 2 then parts ! 0 else 0);
          seconds = (if length parts = 3 then parts ! 2
                     else if length parts = 2 then parts ! 1
                     else if length parts = 1 then parts ! 0 else 0)
      in numAdd (numAdd (numAdd (numMul days 86400) (numMul hours 3600)) (numMul minutes 60))
           seconds)"

text \<open>A component of an elapsed-time token: a non-empty run of decimal digits. Its
  value is \<open>digitsValue\<close>.\<close>

definition digitRun :: "string \<Rightarrow> bool" where
  "digitRun ds = (ds \<noteq> [] \<and> list_all isDigit ds)"

subsection \<open>Snapshots and their difference\<close>

text \<open>\<open>buildSnapshot\<close> walks the flat list once and fills the three indexes. The clock
  reading \<open>Date.now()\<close> is the parameter \<open>now\<close>.\<close>

definition appendAt :: "(int \<rightharpoonup> int list) \<Rightarrow> int \<Rightarrow> int \<Rightarrow> (int \<rightharpoonup> int list)" where
  "appendAt m k v = (case m k of Some vs \<Rightarrow> m(k \<mapsto> vs @ [v]) | None \<Rightarrow> m(k \<mapsto> [v]))"

definition indexStep ::
  "((int \<rightharpoonup> ProcessInfo) \<times> (int \<rightharpoonup> int list) \<times> (int \<rightharpoonup> int list)) \<Rightarrow> ProcessInfo \<Rightarrow>
   ((int \<rightharpoonup> ProcessInfo) \<times> (int \<rightharpoonup> int list) \<times> (int \<rightharpoonup> int list))" where
  "indexStep acc proc =
     (case acc of (bp, cb, pg) \<Rightarrow>
        (bp(pid proc \<mapsto> proc), appendAt cb (ppid proc) (pid proc), appendAt pg (pgid proc) (pid proc)))"

definition buildSnapshot :: "int \<Rightarrow> ProcessInfo list \<Rightarrow> ProcessSnapshot" where
  "buildSnapshot now procs =
     (case foldl indexStep (Map.empty, Map.empty, Map.empty) procs of (bp, cb, pg) \<Rightarrow>
        \<lparr>timestamp = now, processes = procs, byPid = bp, childrenByPpid = cb, pidsByPgid = pg\<rparr>)"

text \<open>One step of the loop that detects added and updated processes: the event pushed for
  \<open>proc\<close>, if any.\<close>

definition addedOrUpdated :: "ProcessSnapshot \<Rightarrow> ProcessInfo \<Rightarrow> ProcessEvent list" where
  "addedOrUpdated oldSnap proc =
     (case byPid oldSnap (pid proc) of
        None \<Rightarrow> [\<lparr>etype = Added, process = proc, previous = None\<rparr>]
      | Some old \<Rightarrow>
          (if cpu old \<noteq> cpu proc \<or> rss old \<noteq> rss proc \<or> etime old \<noteq> etime proc
           then [\<lparr>etype = Updated, process = proc, previous = Some old\<rparr>]
           else []))"

definition removedEvent :: "ProcessSnapshot \<Rightarrow> ProcessInfo \<Rightarrow> ProcessEvent list" where
  "removedEvent newSnap proc =
     (if pid proc \<notin> dom (byPid newSnap)
      then [\<lparr>etype = Removed, process = proc, previous = None\<rparr>] else [])"

definition diffSnapshots :: "ProcessSnapshot option \<Rightarrow> ProcessSnapshot \<Rightarrow> ProcessEvent list" where
  "diffSnapshots oldSnap newSnap =
     (case oldSnap of
        None \<Rightarrow> map (\<lambda>proc. \<lparr>etype = Added, process = proc, previous = None\<rparr>) (processes newSnap)
      | Some old \<Rightarrow>
          concat (map (addedOrUpdated old) (processes newSnap)) @
          concat (map (removedEvent newSnap) (processes old)))"

text \<open>The processes carried by the events of one kind, in the order of the event list.\<close>

definition carried :: "ProcessEventType \<Rightarrow> ProcessEvent list \<Rightarrow> ProcessInfo list" where
  "carried k evs = map process (filter (\<lambda>e. etype e = k) evs)"

text \<open>The pids a snapshot knows, and the symmetric difference of two such sets.\<close>

definition pidSet :: "ProcessSnapshot \<Rightarrow> int set" where
  "pidSet S = dom (byPid S)"

definition symDiff :: "int set \<Rightarrow> int set \<Rightarrow> int set" where
  "symDiff X Y = (X - Y) \<union> (Y - X)"

section \<open>Process poller: the line parser\<close>

text \<open>
  \<open>parseLine\<close> scans the line from the left with a position \<open>current\<close>. The model carries
  the part of the line from \<open>current\<close> on instead of the position. One round of the
  field loop skips spaces, reads the characters up to the next space, and gives up
  (\<open>null\<close>, here \<open>None\<close>) when nothing was read. Only the space character separates
  fields.
\<close>

fun readFields :: "nat \<Rightarrow> string \<Rightarrow> string list \<Rightarrow> (string list \<times> string) option" where
  "readFields 0 rest parts = Some (parts, rest)"
| "readFields (Suc n) rest parts =
     (let start = dropWhile (\<lambda>c. c = CHR '' '') rest;
          field = takeWhile (\<lambda>c. c \<noteq> CHR '' '') start
      in if field = [] then None
         else readFields n (dropWhile (\<lambda>c. c \<noteq> CHR '' '') start) (parts @ [field]))"

text \<open>\<open>parseFloat(s) || 0\<close>; \<open>parseFloat\<close> itself is a built-in of the host language and
  a parameter of the model (\<open>None\<close> for \<open>NaN\<close>).\<close>

definition orZeroReal :: "real option \<Rightarrow> real" where
  "orZeroReal v = (case v of None \<Rightarrow> 0 | Some x \<Rightarrow> x)"

definition parseLine :: "(string \<Rightarrow> real option) \<Rightarrow> string \<Rightarrow> ProcessInfo option" where
  "parseLine parseFloat line =
     (case readFields 8 line [] of
        None \<Rightarrow> None
      | Some (parts, rest) \<Rightarrow>
          (let remainder = dropWhile (\<lambda>c. c = CHR '' '') rest;
               argsStr = (if remainder \<noteq> [] then remainder else parts ! 7)
           in (case (parseInt (parts ! 0), parseInt (parts ! 1), parseInt (parts ! 2)) of
                 (Some pid', Some ppid', Some pgid') \<Rightarrow>
                   Some \<lparr>pid = pid', ppid = ppid', pgid = pgid', user = parts ! 3,
                         cpu = orZeroReal (parseFloat (parts ! 4)),
                         rss = orZero (parseInt (parts ! 5)),
                         etime = parts ! 6, etimeSeconds = parseEtime (parts ! 6),
                         command = parts ! 7, args = argsStr\<rparr>
               | _ \<Rightarrow> None)))"

text \<open>\<open>parseOutput\<close> skips the header line, trims every other line, skips the empty ones
  and keeps the records \<open>parseLine\<close> returns.\<close>

definition parseOutput :: "(string \<Rightarrow> real option) \<Rightarrow> string \<Rightarrow> ProcessInfo list" where
  "parseOutput parseFloat stdout =
     concat (map (\<lambda>l. if trim l = [] then []
                       else (case parseLine parseFloat (trim l) of None \<Rightarrow> [] | Some info \<Rightarrow> [info]))
                 (tl (split CHR 0x0A stdout)))"




section \<open>Tree aggregator\<close>

subsection \<open>The path trie\<close>

text \<open>
  A trie node; the \<open>children\<close> map keeps its keys in insertion order and is an association
  list with distinct keys. The field \<open>processes\<close> of the source is the selector \<open>procs\<close>.
\<close>

datatype TrieNode =
  TrieNode (segment: string) (fullPath: string) (children: "(string \<times> TrieNode) list")
    (procs: "ProcessInfo list") (totalCount: nat) (totalCpu: real) (totalRss: int)

definition createTrieNode :: "string \<Rightarrow> string \<Rightarrow> TrieNode" where
  "createTrieNode seg fp = TrieNode seg fp [] [] 0 0 0"

definition has :: "(string \<times> 'v) list \<Rightarrow> string \<Rightarrow> bool" where
  "has m k = (k \<in> fst ` set m)"

definition getPathSegments :: "ProcessInfo \<Rightarrow> string list" where
  "getPathSegments proc =
     (let first = hd (splitWhiteSpace (args proc));
          cmdPath0 = (if first \<noteq> [] then first else command proc);
          cmdPath = (if prefix ''/'' cmdPath0 then substringFrom cmdPath0 1 else cmdPath0);
          segments = filter (\<lambda>s. length s > 0) (split CHR ''/'' cmdPath)
      in if length segments > 0 then segments else [command proc])"

definition folderSegments :: "string list \<Rightarrow> string list" where
  "folderSegments segments = (if length segments > 1 then butlast segments else [])"

text \<open>The walk of \<open>buildTrie\<close> down the folder segments for one process: a missing child
  is created at the end of the children map, and the process is pushed onto the node the
  walk ends at.\<close>

fun insertAt :: "string list \<Rightarrow> ProcessInfo \<Rightarrow> TrieNode \<Rightarrow> TrieNode" where
  "insertAt [] proc (TrieNode s fp ch ps n c r) = TrieNode s fp ch (ps @ [proc]) n c r"
| "insertAt (seg # segs) proc (TrieNode s fp ch ps n c r) =
     (let childPath = (if fp \<noteq> [] then fp @ ''/'' @ seg else seg);
          ch1 = (if \<not> has ch seg then ch @ [(seg, createTrieNode seg childPath)] else ch)
      in TrieNode s fp
           (map (\<lambda>(k, v). if k = seg then (k, insertAt segs proc v) else (k, v)) ch1)
           ps n c r)"

fun computeTotals :: "TrieNode \<Rightarrow> TrieNode" where
  "computeTotals (TrieNode s fp ch ps n c r) =
     (let ch1 = map (\<lambda>(k, v). (k, computeTotals v)) ch;
          count0 = length ps;
          cpu0 = foldl (\<lambda>a p. a + cpu p) 0 ps;
          rss0 = foldl (\<lambda>a p. a + rss p) 0 ps
      in TrieNode s fp ch1 ps
           (foldl (\<lambda>a (k, v). a + totalCount v) count0 ch1)
           (foldl (\<lambda>a (k, v). a + totalCpu v) cpu0 ch1)
           (foldl (\<lambda>a (k, v). a + totalRss v) rss0 ch1))"

definition buildTrie :: "ProcessInfo list \<Rightarrow> TrieNode" where
  "buildTrie ps =
     computeTotals
       (foldl (\<lambda>root proc. insertAt (folderSegments (getPathSegments proc)) proc root)
          (createTrieNode [] []) ps)"



fun collapseChains :: "TrieNode \<Rightarrow> TrieNode" where
  "collapseChains (TrieNode s fp ch ps n c r) =
     (let newChildren = map (\<lambda>(k, v). (k, collapseChains v)) ch
      in if length newChildren = 1 \<and> length ps = 0 \<and> s \<noteq> []
         then (case snd (hd newChildren) of
                 TrieNode s1 fp1 ch1 ps1 n1 c1 r1 \<Rightarrow>
                   TrieNode (s @ ''/'' @ s1) fp1 ch1 ps1 n1 c1 r1)
         else TrieNode s fp newChildren ps n c r)"

text \<open>A folder that chain collapsing merges with its child, and the folders strictly
  below a node.\<close>

definition singleChain :: "TrieNode \<Rightarrow> bool" where
  "singleChain node = (length (children node) = 1 \<and> length (procs node) = 0 \<and> segment node \<noteq> [])"

fun foldersBelow :: "TrieNode \<Rightarrow> TrieNode list" where
  "foldersBelow (TrieNode s fp ch ps n c r) =
     concat (map (\<lambda>(k, v). v # foldersBelow v) ch)"

subsection \<open>The provider: filtering and presentation\<close>

record ProcessTreeProvider =
  snapshot :: "ProcessSnapshot option"
  trie :: "TrieNode option"
  showSystemProcesses :: bool
  showOtherUsers :: bool
  currentUser :: string

definition systemUsers :: "string list" where
  "systemUsers =
     [''root'', ''daemon'', ''nobody'', ''sys'', ''bin'', ''mail'',
      ''_windowserver'', ''_coreaudiod'', ''_spotlight'', ''_locationd'',
      ''_hidd'', ''_distnoted'', ''_nsurlsessiond'', ''_displaypolicyd'']"

definition isSystemUser :: "string \<Rightarrow> bool" where
  "isSystemUser u = (u \<in> set systemUsers \<or> prefix ''_'' u)"

definition isVisible :: "ProcessTreeProvider \<Rightarrow> ProcessInfo \<Rightarrow> bool" where
  "isVisible this proc =
     (if \<not> showOtherUsers this \<and> user proc \<noteq> currentUser this then False
      else if \<not> showSystemProcesses this \<and> isSystemUser (user proc) then False
      else True)"

definition getVisibleProcesses :: "ProcessTreeProvider \<Rightarrow> ProcessInfo list" where
  "getVisibleProcesses this =
     (case snapshot this of Some snap \<Rightarrow> filter (isVisible this) (processes snap) | None \<Rightarrow> [])"

definition update :: "ProcessTreeProvider \<Rightarrow> ProcessSnapshot \<Rightarrow> ProcessTreeProvider" where
  "update this snap =
     (let this1 = this\<lparr>snapshot := Some snap\<rparr>
      in this1\<lparr>trie := Some (collapseChains (buildTrie (getVisibleProcesses this1)))\<rparr>)"

text \<open>The elements shown under a node: its folders by descending process count, then its
  direct processes by descending CPU share, both in a stable order. A folder element
  carries the displayed segment, the path prefix and the three aggregates.\<close>

datatype TreeElement =
  FolderNode string string nat real int
| ProcessNode ProcessInfo

definition getTrieNodeChildren :: "TrieNode \<Rightarrow> TreeElement list" where
  "getTrieNodeChildren node =
     map (\<lambda>c. FolderNode (segment c) (fullPath c) (totalCount c) (totalCpu c) (totalRss c))
       (sort_key (\<lambda>c. - int (totalCount c)) (map snd (children node))) @
     map ProcessNode (sort_key (\<lambda>p. - cpu p) (procs node))"

section \<open>Process controller\<close>

text \<open>
  The controller acts on the operating system through \<open>process.kill\<close>, which either
  returns or throws an error with a message. The model takes the system as a parameter:
  a state \<open>'w\<close> and a function from the state, the pid and the signal to the outcome and
  the next state. The effects of an operation are the new system state, the calls of
  \<open>process.kill\<close> in the order they were made, each with its outcome, and the messages
  shown to the user.
\<close>

datatype Signal = SIGTERM | SIGKILL

datatype KillOutcome = Delivered | Threw string

datatype Notice =
  AlreadyExited int
| PermissionDenied int
| FailedToSignal int string

record 'w Effects =
  world :: 'w
  kills :: "(int \<times> Signal \<times> KillOutcome) list"
  notices :: "Notice list"

type_synonym 'w processKill = "'w \<Rightarrow> int \<Rightarrow> Signal \<Rightarrow> KillOutcome \<times> 'w"

definition sendSignal ::
  "'w processKill \<Rightarrow> int \<Rightarrow> Signal \<Rightarrow> 'w Effects \<Rightarrow> bool \<times> 'w Effects" where
  "sendSignal kill p sg st =
     (case kill (world st) p sg of (outcome, w) \<Rightarrow>
        (let st1 = st\<lparr>world := w, kills := kills st @ [(p, sg, outcome)]\<rparr>
         in (case outcome of
               Delivered \<Rightarrow> (True, st1)
             | Threw msg \<Rightarrow>
                 (if includesStr msg ''ESRCH''
                  then (True, st1\<lparr>notices := notices st1 @ [AlreadyExited p]\<rparr>)
                  else if includesStr msg ''EPERM''
                  then (False, st1\<lparr>notices := notices st1 @ [PermissionDenied p]\<rparr>)
                  else (False, st1\<lparr>notices := notices st1 @ [FailedToSignal p msg]\<rparr>)))))"

text \<open>The confirmation dialog is modal; \<open>answer\<close> is the button the user would press
  (\<open>None\<close> when the dialog is dismissed). It is consulted only when \<open>confirm\<close> is set.\<close>

definition terminatePid ::
  "'w processKill \<Rightarrow> string option \<Rightarrow> int \<Rightarrow> bool \<Rightarrow> 'w Effects \<Rightarrow> bool \<times> 'w Effects" where
  "terminatePid kill answer p confirm st =
     (if confirm \<and> answer \<noteq> Some ''Terminate'' then (False, st)
      else sendSignal kill p SIGTERM st)"

definition forceKillPid ::
  "'w processKill \<Rightarrow> string option \<Rightarrow> int \<Rightarrow> bool \<Rightarrow> 'w Effects \<Rightarrow> bool \<times> 'w Effects" where
  "forceKillPid kill answer p confirm st =
     (if confirm \<and> answer \<noteq> Some ''Force Kill'' then (False, st)
      else sendSignal kill p SIGKILL st)"

text \<open>The traversal of \<open>getDescendants\<close>: \<open>stack.pop()\<close> takes the last element, and the
  children of the popped pid are pushed onto both the result and the stack. The loop has
  no bound of its own, so the model is a partial function and \<open>None\<close> stands for a loop
  that never ends.\<close>

definition childrenOf :: "(int \<rightharpoonup> int list) \<Rightarrow> int \<Rightarrow> int list" where
  "childrenOf m p = (case m p of Some cs \<Rightarrow> cs | None \<Rightarrow> [])"

partial_function (option) descendantsLoop ::
  "(int \<rightharpoonup> int list) \<Rightarrow> int list \<Rightarrow> int list \<Rightarrow> int list option" where
  "descendantsLoop m stack result =
     (if length stack > 0
      then descendantsLoop m (butlast stack @ childrenOf m (last stack))
             (result @ childrenOf m (last stack))
      else Some result)"

definition getDescendants :: "int \<Rightarrow> ProcessSnapshot \<Rightarrow> int list option" where
  "getDescendants p snap = descendantsLoop (childrenByPpid snap) [p] []"

text \<open>The loop of \<open>terminateSubtree\<close> over the reversed descendants.\<close>

fun signalEach ::
  "'w processKill \<Rightarrow> int list \<Rightarrow> bool \<Rightarrow> 'w Effects \<Rightarrow> bool \<times> 'w Effects" where
  "signalEach kill [] allOk st = (allOk, st)"
| "signalEach kill (childPid # rest) allOk st =
     (case sendSignal kill childPid SIGTERM st of
        (ok, st1) \<Rightarrow> signalEach kill rest (if \<not> ok then False else allOk) st1)"

definition terminateSubtree ::
  "'w processKill \<Rightarrow> string option \<Rightarrow> int \<Rightarrow> ProcessSnapshot \<Rightarrow> bool \<Rightarrow> 'w Effects \<Rightarrow>
   (bool \<times> 'w Effects) option" where
  "terminateSubtree kill answer p snap confirm st =
     (case getDescendants p snap of
        None \<Rightarrow> None
      | Some descendants \<Rightarrow>
          (if confirm \<and> answer \<noteq> Some ''Terminate Subtree'' then Some (False, st)
           else (case signalEach kill (rev descendants) True st of
                   (allOk, st1) \<Rightarrow>
                     (case sendSignal kill p SIGTERM st1 of
                        (ok, st2) \<Rightarrow> Some (if \<not> ok then False else allOk, st2)))))"

text \<open>The parent links of a children-by-parent index, as a relation from child to
  parent, and the outcomes of \<open>process.kill\<close> that \<open>sendSignal\<close> counts as success.\<close>

definition childRel :: "(int \<rightharpoonup> int list) \<Rightarrow> (int \<times> int) set" where
  "childRel m = {(c, p). c \<in> set (childrenOf m p)}"

definition accepted :: "KillOutcome \<Rightarrow> bool" where
  "accepted outcome = (case outcome of Delivered \<Rightarrow> True | Threw msg \<Rightarrow> includesStr msg ''ESRCH'')"

text \<open>Two orderings of a list of pids against the index: every child of an element occurs
  at a later position, and every child of an element occurs at an earlier position. The
  second is the bottom-up order of a sequence of signals: when a process is signalled, each
  of its children has been signalled before.\<close>

definition childrenLater :: "(int \<rightharpoonup> int list) \<Rightarrow> int list \<Rightarrow> bool" where
  "childrenLater m ds =
     (\<forall>i < length ds. \<forall>c \<in> set (childrenOf m (ds ! i)). \<exists>j. i < j \<and> j < length ds \<and> ds ! j = c)"

definition signalledBeforeParent :: "(int \<rightharpoonup> int list) \<Rightarrow> int list \<Rightarrow> bool" where
  "signalledBeforeParent m order =
     (\<forall>j < length order. \<forall>c \<in> set (childrenOf m (order ! j)). \<exists>i < j. order ! i = c)"

section \<open>Example inputs\<close>

definition procInit :: ProcessInfo where
  "procInit = \<lparr>pid = 1, ppid = 0, pgid = 1, user = ''root'', cpu = 0, rss = 10, etime = ''01:00'',
     etimeSeconds = 60, command = ''init'', args = ''/sbin/init''\<rparr>"

definition procShell :: ProcessInfo where
  "procShell = \<lparr>pid = 2, ppid = 1, pgid = 2, user = ''alice'', cpu = 5, rss = 20, etime = ''00:30'',
     etimeSeconds = 30, command = ''sh'', args = ''/bin/sh''\<rparr>"

text \<open>A provider of the user \<open>alice\<close> that shows system processes and hides other users.\<close>

definition providerAlice :: ProcessTreeProvider where
  "providerAlice = \<lparr>snapshot = Some (buildSnapshot 0 [procInit, procShell]), trie = None,
     showSystemProcesses = True, showOtherUsers = False, currentUser = ''alice''\<rparr>"

text \<open>A record with another full command line.\<close>

definition withArgs :: "ProcessInfo \<Rightarrow> string \<Rightarrow> ProcessInfo" where
  "withArgs proc s = proc\<lparr>args := s\<rparr>"





text \<open>A system in which pid 3 is protected and pid 9 has exited, and a controller that
  has done nothing yet.\<close>

definition killDemo :: "unit processKill" where
  "killDemo w p sg = (if p = 3 then (Threw ''kill EPERM'', w)
                      else if p = 9 then (Threw ''kill ESRCH'', w) else (Delivered, w))"

definition noEffects :: "unit Effects" where
  "noEffects = \<lparr>world = (), kills = [], notices = []\<rparr>"

text \<open>The chain of processes 1, 2, 3, 4, each the parent of the next, and a listing whose
  only process is its own parent (pid 0 with parent pid 0).\<close>

definition chainSnapshot :: ProcessSnapshot where
  "chainSnapshot = buildSnapshot 0
     [procInit\<lparr>pid := 1, ppid := 0\<rparr>, procInit\<lparr>pid := 2, ppid := 1\<rparr>,
      procInit\<lparr>pid := 3, ppid := 2\<rparr>, procInit\<lparr>pid := 4, ppid := 3\<rparr>]"

definition kernelTask :: ProcessInfo where
  "kernelTask = \<lparr>pid = 0, ppid = 0, pgid = 0, user = ''root'', cpu = 0, rss = 0, etime = ''01:00'',
     etimeSeconds = 60, command = ''kernel_task'', args = ''kernel_task''\<rparr>"

section \<open>Properties\<close>

subsection \<open>Elapsed-time parser\<close>

lemma bitLength_le: "n < 2 ^ k \<Longrightarrow> bitLength n \<le> k"
proof (induction k arbitrary: n)
  case 0
  then show ?case by (simp add: bitLength.simps)
next
  case (Suc k)
  show ?case
  proof (cases "n = 0")
    case True
    then show ?thesis by (simp add: bitLength.simps)
  next
    case False
    from Suc.prems have "n div 2 < 2 ^ k" by simp
    from Suc.IH [OF this] False show ?thesis
      by (subst bitLength.simps) simp
  qed
qed

text \<open>An integer below \<open>2 ^ 53\<close> in magnitude is a double.\<close>

lemma roundDouble_exact: "\<bar>n\<bar> < 9007199254740992 \<Longrightarrow> roundDouble n = n"
proof -
  assume "\<bar>n\<bar> < 9007199254740992"
  then have "nat \<bar>n\<bar> < 2 ^ 53" by simp
  then have "bitLength (nat \<bar>n\<bar>) \<le> 53" by (rule bitLength_le)
  then show ?thesis by (simp add: roundDouble_def Let_def)
qed

lemma isDigit_plain:
  assumes "isDigit c"
  shows "\<not> isWhiteSpace c" and "c \<noteq> CHR ''-''" and "c \<noteq> CHR ''+''" and "c \<noteq> CHR '':''"
  using assms by (auto simp: isDigit_def isWhiteSpace_def)

lemma digit_value_nonneg: "isDigit c \<Longrightarrow> (0::int) \<le> of_char c - 48"
proof -
  assume "isDigit c"
  then have "48 \<le> (of_char c :: nat)" by (simp add: isDigit_def)
  then have "(48::int) \<le> int (of_char c)" by simp
  then show ?thesis by (simp add: of_nat_of_char)
qed

lemma foldl_digits_nonneg:
  "list_all isDigit ds \<Longrightarrow> 0 \<le> acc \<Longrightarrow>
   (0::int) \<le> foldl (\<lambda>acc c. acc * 10 + (of_char c - 48)) acc ds"
proof (induction ds arbitrary: acc)
  case Nil
  then show ?case by simp
next
  case (Cons c ds)
  from Cons.prems have "isDigit c" "list_all isDigit ds" by simp_all
  moreover from \<open>isDigit c\<close> Cons.prems(2) have "0 \<le> acc * 10 + (of_char c - 48)"
    using digit_value_nonneg [of c] by simp
  ultimately show ?case
    using Cons.IH by simp
qed

lemma digitsValue_nonneg: "digitRun ds \<Longrightarrow> 0 \<le> digitsValue ds"
  by (simp add: digitRun_def digitsValue_def foldl_digits_nonneg)

lemma digitRun_ends:
  assumes "digitRun ds"
  shows "isDigit (hd ds)" and "isDigit (last ds)" and "\<forall>c \<in> set ds. isDigit c"
  using assms by (auto simp: digitRun_def list_all_iff)

lemma parseInt_digitRun:
  assumes "digitRun ds"
  shows "parseInt ds = Some (roundDouble (digitsValue ds))"
proof -
  obtain c t where ds: "ds = c # t"
    using assms by (cases ds) (auto simp: digitRun_def)
  have c: "isDigit c" and all: "\<forall>x \<in> set (c # t). isDigit x"
    using assms ds by (auto simp: digitRun_def list_all_iff)
  have "dropWhile isWhiteSpace (c # t) = c # t"
    using isDigit_plain(1) [OF c] by simp
  moreover have "takeWhile isDigit (c # t) = c # t"
    using all by (simp only: takeWhile_eq_all_conv)
  ultimately show ?thesis
    using isDigit_plain(2,3) [OF c] unfolding ds parseInt_def by (simp add: Let_def)
qed

lemma trim_plain:
  assumes "s \<noteq> []" and "\<not> isWhiteSpace (hd s)" and "\<not> isWhiteSpace (last s)"
  shows "trim s = s"
proof -
  have a: "dropWhile isWhiteSpace s = s"
    using assms(2) by (simp add: dropWhile_eq_self_iff)
  have "hd (rev s) = last s"
    using assms(1) by (simp add: hd_rev)
  then have "dropWhile isWhiteSpace (rev s) = rev s"
    using assms(3) by (simp add: dropWhile_eq_self_iff)
  with a show ?thesis by (simp add: trim_def)
qed

lemma dropWhile_upto: "sep \<notin> set a \<Longrightarrow> dropWhile (\<lambda>c. c \<noteq> sep) (a @ sep # b) = sep # b"
  by (induction a) auto

lemma takeWhile_upto: "sep \<notin> set a \<Longrightarrow> takeWhile (\<lambda>c. c \<noteq> sep) (a @ sep # b) = a"
  by (induction a) auto

lemma dropWhile_absent: "sep \<notin> set a \<Longrightarrow> dropWhile (\<lambda>c. c \<noteq> sep) a = []"
  by (induction a) auto

lemma split_none: "sep \<notin> set a \<Longrightarrow> split sep a = [a]"
  unfolding split_def
  by (subst splitBy.simps) (simp add: dropWhile_absent)

lemma split_first: "sep \<notin> set a \<Longrightarrow> split sep (a @ sep # b) = a # split sep b"
  unfolding split_def
  by (subst splitBy.simps) (simp add: dropWhile_upto takeWhile_upto)

lemma indexOf_none: "c \<notin> set s \<Longrightarrow> indexOf s c = -1"
  by (simp add: indexOf_def)

lemma indexOf_first: "c \<notin> set d \<Longrightarrow> indexOf (d @ c # r) c = int (length d)"
  by (simp add: indexOf_def takeWhile_upto)

lemma substring_prefix: "substring (d @ c # r) 0 (int (length d)) = d"
  by (simp add: substring_def Let_def min_def max_def)

lemma substringFrom_rest: "substringFrom (d @ c # r) (int (length d) + 1) = r"
  by (simp add: substringFrom_def nat_add_distrib)

lemma digitRun_without:
  assumes "digitRun ds"
  shows "CHR ''-'' \<notin> set ds" and "CHR '':'' \<notin> set ds"
  using digitRun_ends(3) [OF assms] isDigit_plain(2,4) by blast+

lemma total_exact:
  assumes "0 \<le> d" and "0 \<le> h" and "0 \<le> m" and "0 \<le> s"
    and "d * 86400 + h * 3600 + m * 60 + s < 9007199254740992"
  shows "numAdd (numAdd (numAdd (numMul d 86400) (numMul h 3600)) (numMul m 60)) s =
         d * 86400 + h * 3600 + m * 60 + s"
proof -
  have a: "numMul d 86400 = d * 86400" "numMul h 3600 = h * 3600" "numMul m 60 = m * 60"
    unfolding numMul_def using assms by (auto intro!: roundDouble_exact)
  have b: "numAdd (d * 86400) (h * 3600) = d * 86400 + h * 3600"
    unfolding numAdd_def using assms by (auto intro!: roundDouble_exact)
  have c: "numAdd (d * 86400 + h * 3600) (m * 60) = d * 86400 + h * 3600 + m * 60"
    unfolding numAdd_def using assms by (auto intro!: roundDouble_exact)
  have e: "numAdd (d * 86400 + h * 3600 + m * 60) s = d * 86400 + h * 3600 + m * 60 + s"
    unfolding numAdd_def using assms by (auto intro!: roundDouble_exact)
  show ?thesis
    by (simp only: a b c e)
qed

lemma component_value:
  assumes "digitRun ds" and "digitsValue ds < 9007199254740992"
  shows "orZero (parseInt ds) = digitsValue ds"
proof -
  have "roundDouble (digitsValue ds) = digitsValue ds"
    using assms(2) digitsValue_nonneg [OF assms(1)] by (intro roundDouble_exact) simp
  then show ?thesis
    by (simp add: parseInt_digitRun [OF assms(1)] orZero_def)
qed

lemma parseEtime_seconds:
  assumes "digitRun s" and "digitsValue s < 9007199254740992"
  shows "parseEtime s = digitsValue s"
proof -
  have tr: "trim s = s"
    using assms(1) digitRun_ends(1,2) [OF assms(1)] isDigit_plain(1)
    by (intro trim_plain) (auto simp: digitRun_def)
  have ix: "indexOf s CHR ''-'' = -1"
    using digitRun_without(1) [OF assms(1)] by (rule indexOf_none)
  have sp: "split CHR '':'' s = [s]"
    using digitRun_without(2) [OF assms(1)] by (rule split_none)
  have "parseEtime s =
        numAdd (numAdd (numAdd (numMul 0 86400) (numMul 0 3600)) (numMul 0 60)) (digitsValue s)"
    unfolding parseEtime_def
    by (simp add: tr ix sp Let_def component_value [OF assms])
  also have "\<dots> = 0 * 86400 + 0 * 3600 + 0 * 60 + digitsValue s"
    using assms(2) digitsValue_nonneg [OF assms(1)] by (intro total_exact) simp_all
  finally show ?thesis by simp
qed

lemma digitRun_first: "digitRun a \<Longrightarrow> a @ r \<noteq> [] \<and> hd (a @ r) = hd a"
  by (simp add: digitRun_def)

lemma plain_token:
  assumes "digitRun a" and "digitRun s"
  shows "trim (a @ x # r @ s) = a @ x # r @ s" and "trim (a @ x # s) = a @ x # s"
proof -
  have a: "a \<noteq> []" "\<not> isWhiteSpace (hd a)" and s: "s \<noteq> []" "\<not> isWhiteSpace (last s)"
    using assms digitRun_ends(1,2) isDigit_plain(1) by (auto simp: digitRun_def)
  show "trim (a @ x # r @ s) = a @ x # r @ s"
    using a s by (intro trim_plain) simp_all
  show "trim (a @ x # s) = a @ x # s"
    using a s by (intro trim_plain) simp_all
qed

lemma parseEtime_minutes:
  assumes "digitRun m" and "digitRun s"
    and "digitsValue m * 60 + digitsValue s < 9007199254740992"
  shows "parseEtime (m @ '':'' @ s) = digitsValue m * 60 + digitsValue s"
proof -
  let ?t = "m @ CHR '':'' # s"
  note nn = digitsValue_nonneg [OF assms(1)] digitsValue_nonneg [OF assms(2)]
  have tr: "trim ?t = ?t"
    using plain_token(2) [OF assms(1,2)] .
  have ix: "indexOf ?t CHR ''-'' = -1"
    using digitRun_without(1) [OF assms(1)] digitRun_without(1) [OF assms(2)]
    by (intro indexOf_none) simp
  have sp: "split CHR '':'' ?t = [m, s]"
    using digitRun_without(2) [OF assms(1)] digitRun_without(2) [OF assms(2)]
    by (simp add: split_first split_none)
  have vm: "orZero (parseInt m) = digitsValue m" and vs: "orZero (parseInt s) = digitsValue s"
    using assms nn by (auto intro!: component_value)
  have "parseEtime ?t =
        numAdd (numAdd (numAdd (numMul 0 86400) (numMul 0 3600)) (numMul (digitsValue m) 60))
          (digitsValue s)"
    unfolding parseEtime_def by (simp add: tr ix sp Let_def vm vs)
  also have "\<dots> = 0 * 86400 + 0 * 3600 + digitsValue m * 60 + digitsValue s"
    using assms(3) nn by (intro total_exact) simp_all
  finally show ?thesis by simp
qed

lemma parseEtime_hours:
  assumes "digitRun h" and "digitRun m" and "digitRun s"
    and "digitsValue h * 3600 + digitsValue m * 60 + digitsValue s < 9007199254740992"
  shows "parseEtime (h @ '':'' @ m @ '':'' @ s) =
         digitsValue h * 3600 + digitsValue m * 60 + digitsValue s"
proof -
  let ?t = "h @ CHR '':'' # m @ CHR '':'' # s"
  note nn = digitsValue_nonneg [OF assms(1)] digitsValue_nonneg [OF assms(2)]
    digitsValue_nonneg [OF assms(3)]
  have tr: "trim ?t = ?t"
    using plain_token(1) [OF assms(1,3), of "CHR '':''" "m @ [CHR '':'']"] by simp
  have ix: "indexOf ?t CHR ''-'' = -1"
    using digitRun_without(1) [OF assms(1)] digitRun_without(1) [OF assms(2)]
      digitRun_without(1) [OF assms(3)]
    by (intro indexOf_none) simp
  have sp: "split CHR '':'' ?t = [h, m, s]"
    using digitRun_without(2) [OF assms(1)] digitRun_without(2) [OF assms(2)]
      digitRun_without(2) [OF assms(3)]
    by (simp add: split_first split_none)
  have vh: "orZero (parseInt h) = digitsValue h" and vm: "orZero (parseInt m) = digitsValue m"
    and vs: "orZero (parseInt s) = digitsValue s"
    using assms nn by (auto intro!: component_value)
  have "parseEtime ?t =
        numAdd (numAdd (numAdd (numMul 0 86400) (numMul (digitsValue h) 3600))
                  (numMul (digitsValue m) 60))
          (digitsValue s)"
    unfolding parseEtime_def by (simp add: tr ix sp Let_def vh vm vs)
  also have "\<dots> = 0 * 86400 + digitsValue h * 3600 + digitsValue m * 60 + digitsValue s"
    using assms(4) nn by (intro total_exact) simp_all
  finally show ?thesis by simp
qed

lemma parseEtime_days:
  assumes "digitRun d" and "digitRun h" and "digitRun m" and "digitRun s"
    and "digitsValue d * 86400 + digitsValue h * 3600 + digitsValue m * 60 + digitsValue s
         < 9007199254740992"
  shows "parseEtime (d @ ''-'' @ h @ '':'' @ m @ '':'' @ s) =
         digitsValue d * 86400 + digitsValue h * 3600 + digitsValue m * 60 + digitsValue s"
proof -
  let ?r = "h @ CHR '':'' # m @ CHR '':'' # s"
  let ?t = "d @ CHR ''-'' # ?r"
  note nn = digitsValue_nonneg [OF assms(1)] digitsValue_nonneg [OF assms(2)]
    digitsValue_nonneg [OF assms(3)] digitsValue_nonneg [OF assms(4)]
  have tr: "trim ?t = ?t"
    using plain_token(1) [OF assms(1,4), of "CHR ''-''" "h @ CHR '':'' # m @ [CHR '':'']"]
    by simp
  have ix: "indexOf ?t CHR ''-'' = int (length d)"
    using digitRun_without(1) [OF assms(1)] by (rule indexOf_first)
  have day: "substring ?t 0 (int (length d)) = d"
    by (rule substring_prefix)
  have rest: "substringFrom ?t (int (length d) + 1) = ?r"
    by (rule substringFrom_rest)
  have sp: "split CHR '':'' ?r = [h, m, s]"
    using digitRun_without(2) [OF assms(2)] digitRun_without(2) [OF assms(3)]
      digitRun_without(2) [OF assms(4)]
    by (simp add: split_first split_none)
  have vd: "orZero (parseInt d) = digitsValue d" and vh: "orZero (parseInt h) = digitsValue h"
    and vm: "orZero (parseInt m) = digitsValue m" and vs: "orZero (parseInt s) = digitsValue s"
    using assms nn by (auto intro!: component_value)
  have "parseEtime ?t =
        numAdd (numAdd (numAdd (numMul (digitsValue d) 86400) (numMul (digitsValue h) 3600))
                  (numMul (digitsValue m) 60))
          (digitsValue s)"
    unfolding parseEtime_def by (simp add: tr ix day rest sp Let_def vd vh vm vs)
  also have "\<dots> =
      digitsValue d * 86400 + digitsValue h * 3600 + digitsValue m * 60 + digitsValue s"
    using assms(5) nn by (intro total_exact) simp_all
  finally show ?thesis by simp
qed

lemma parseEtime_malformed: "parseEtime ''xx:05'' = 5"
proof -
  have "parseEtime ''xx:05'' =
        numAdd (numAdd (numAdd (numMul 0 86400) (numMul 0 3600)) (numMul 0 60)) 5"
    by (simp add: parseEtime_def trim_def isWhiteSpace_def indexOf_def orZero_def parseInt_def
        isDigit_def digitsValue_def split_def splitBy.simps Let_def roundDouble_exact)
  also have "\<dots> = 0 * 86400 + 0 * 3600 + 0 * 60 + 5"
    by (intro total_exact) simp_all
  finally show ?thesis by simp
qed

lemma digitRun_literals:
  "digitRun ''45''" "digitRun ''02''" "digitRun ''30''" "digitRun ''01''" "digitRun ''03''"
  "digitRun ''2''" "digitRun ''04''" "digitRun ''05''"
  by (simp_all add: digitRun_def isDigit_def)

lemma digitsValue_literals:
  "digitsValue ''45'' = 45" "digitsValue ''02'' = 2" "digitsValue ''30'' = 30"
  "digitsValue ''01'' = 1" "digitsValue ''03'' = 3" "digitsValue ''2'' = 2"
  "digitsValue ''04'' = 4" "digitsValue ''05'' = 5"
  by (simp_all add: digitsValue_def)

text \<open>
  C6, as amended. The elapsed-time parser returns total whole seconds for the four token
  forms \<open>ss\<close>, \<open>mm:ss\<close>, \<open>hh:mm:ss\<close> and \<open>dd-hh:mm:ss\<close>, each component a non-empty run of
  decimal digits, whenever that total is below \<open>2 ^ 53\<close> and so is a number the parser
  computes exactly. In particular \<open>45\<close> gives 45, \<open>02:30\<close> gives 150, \<open>01:02:03\<close> gives
  3723 and \<open>2-03:04:05\<close> gives \<open>2 * 86400 + 3 * 3600 + 4 * 60 + 5 = 183845\<close>; the
  malformed token \<open>xx:05\<close> gives 5, its non-numeric component counting as 0.
\<close>

theorem parseEtime_forms:
  assumes "digitRun d" and "digitRun h" and "digitRun m" and "digitRun s"
  shows "(digitsValue s < 2 ^ 53 \<longrightarrow> parseEtime s = digitsValue s) \<and>
         (digitsValue m * 60 + digitsValue s < 2 ^ 53 \<longrightarrow>
            parseEtime (m @ '':'' @ s) = digitsValue m * 60 + digitsValue s) \<and>
         (digitsValue h * 3600 + digitsValue m * 60 + digitsValue s < 2 ^ 53 \<longrightarrow>
            parseEtime (h @ '':'' @ m @ '':'' @ s) =
              digitsValue h * 3600 + digitsValue m * 60 + digitsValue s) \<and>
         (digitsValue d * 86400 + digitsValue h * 3600 + digitsValue m * 60 + digitsValue s
            < 2 ^ 53 \<longrightarrow>
            parseEtime (d @ ''-'' @ h @ '':'' @ m @ '':'' @ s) =
              digitsValue d * 86400 + digitsValue h * 3600 + digitsValue m * 60 + digitsValue s) \<and>
         parseEtime ''45'' = 45 \<and>
         parseEtime ''02:30'' = 150 \<and>
         parseEtime ''01:02:03'' = 3723 \<and>
         parseEtime ''2-03:04:05'' = 183845 \<and>
         parseEtime ''xx:05'' = 5"
proof -
  have e1: "parseEtime ''45'' = 45"
    using parseEtime_seconds [of "''45''"] by (simp add: digitRun_literals digitsValue_literals)
  have e2: "parseEtime ''02:30'' = 150"
    using parseEtime_minutes [of "''02''" "''30''"]
    by (simp add: digitRun_literals digitsValue_literals)
  have e3: "parseEtime ''01:02:03'' = 3723"
    using parseEtime_hours [of "''01''" "''02''" "''03''"]
    by (simp add: digitRun_literals digitsValue_literals)
  have e4: "parseEtime ''2-03:04:05'' = 183845"
    using parseEtime_days [of "''2''" "''03''" "''04''" "''05''"]
    by (simp add: digitRun_literals digitsValue_literals)
  have f1: "digitsValue s < 2 ^ 53 \<longrightarrow> parseEtime s = digitsValue s"
    using parseEtime_seconds [OF assms(4)] by simp
  have f2: "digitsValue m * 60 + digitsValue s < 2 ^ 53 \<longrightarrow>
      parseEtime (m @ '':'' @ s) = digitsValue m * 60 + digitsValue s"
    using parseEtime_minutes [OF assms(3,4)] by simp
  have f3: "digitsValue h * 3600 + digitsValue m * 60 + digitsValue s < 2 ^ 53 \<longrightarrow>
      parseEtime (h @ '':'' @ m @ '':'' @ s) =
        digitsValue h * 3600 + digitsValue m * 60 + digitsValue s"
    using parseEtime_hours [OF assms(2,3,4)] by simp
  have f4: "digitsValue d * 86400 + digitsValue h * 3600 + digitsValue m * 60 + digitsValue s
        < 2 ^ 53 \<longrightarrow>
      parseEtime (d @ ''-'' @ h @ '':'' @ m @ '':'' @ s) =
        digitsValue d * 86400 + digitsValue h * 3600 + digitsValue m * 60 + digitsValue s"
    using parseEtime_days [OF assms] by simp
  from f1 f2 f3 f4 e1 e2 e3 e4 parseEtime_malformed show ?thesis
    by blast
qed

theorem parseEtime_forms_witness:
  "digitRun ''7'' \<and> digitRun ''10'' \<and> digitRun ''20'' \<and> digitRun ''30'' \<and>
   parseEtime ''30'' = 30 \<and> parseEtime ''20:30'' = 1230 \<and> parseEtime ''10:20:30'' = 37230 \<and>
   parseEtime ''7-10:20:30'' = 642030"
proof -
  have r: "digitRun ''7''" "digitRun ''10''" "digitRun ''20''" "digitRun ''30''"
    by (simp_all add: digitRun_def isDigit_def)
  have v: "digitsValue ''7'' = 7" "digitsValue ''10'' = 10" "digitsValue ''20'' = 20"
    "digitsValue ''30'' = 30"
    by (simp_all add: digitsValue_def)
  show ?thesis
    using parseEtime_forms [OF r] r by (simp add: v)
qed

text \<open>The claim as stated fails twice: the value listed for the token with a days
  component, 187445, is not what the parser returns, and a token of the form \<open>ss\<close> whose
  value is above \<open>2 ^ 53\<close> is rounded to a double.\<close>

theorem parseEtime_counterexample:
  "parseEtime ''2-03:04:05'' \<noteq> 187445 \<and>
   digitRun ''9007199254740993'' \<and>
   parseEtime ''9007199254740993'' \<noteq> digitsValue ''9007199254740993''"
proof -
  have a: "parseEtime ''2-03:04:05'' = 183845"
    using parseEtime_days [of "''2''" "''03''" "''04''" "''05''"]
    by (simp add: digitRun_literals digitsValue_literals)
  have r: "digitRun ''9007199254740993''"
    by (simp add: digitRun_def isDigit_def)
  have v: "digitsValue ''9007199254740993'' = 9007199254740993"
    by (simp add: digitsValue_def)
  have p: "parseInt ''9007199254740993'' = Some 9007199254740992"
    unfolding parseInt_digitRun [OF r] v
    by (simp add: roundDouble_def bitLength.simps Let_def)
  have z: "roundDouble 0 = 0"
    by (simp add: roundDouble_exact)
  have big: "roundDouble 9007199254740992 = 9007199254740992"
    by (simp add: roundDouble_def bitLength.simps Let_def)
  have "parseEtime ''9007199254740993'' = 9007199254740992"
    unfolding parseEtime_def
    by (simp add: trim_plain isWhiteSpace_def indexOf_def split_none p orZero_def Let_def
        numAdd_def numMul_def z big)
  with a r v show ?thesis by simp
qed

subsection \<open>Snapshot difference\<close>

lemma added_events_carry:
  "carried Added (concat (map (addedOrUpdated old) ps)) =
   filter (\<lambda>p. byPid old (pid p) = None) ps"
  by (induction ps) (auto simp: carried_def addedOrUpdated_def split: option.splits)

lemma added_events_not_removed:
  "carried Removed (concat (map (addedOrUpdated old) ps)) = []"
  by (induction ps) (auto simp: carried_def addedOrUpdated_def split: option.splits)

lemma removed_events_carry:
  "carried Removed (concat (map (removedEvent new) ps)) =
   filter (\<lambda>p. byPid new (pid p) = None) ps"
  by (induction ps) (auto simp: carried_def removedEvent_def domIff)

lemma removed_events_not_added:
  "carried Added (concat (map (removedEvent new) ps)) = []"
  by (induction ps) (auto simp: carried_def removedEvent_def)

lemma carried_append: "carried k (xs @ ys) = carried k xs @ carried k ys"
  by (simp add: carried_def)

lemma carried_Removed_diff:
  "carried Removed (diffSnapshots (Some A) B) = filter (\<lambda>p. byPid B (pid p) = None) (processes A)"
  by (simp add: diffSnapshots_def carried_append added_events_not_removed removed_events_carry)

lemma carried_Added_diff:
  "carried Added (diffSnapshots (Some B) A) = filter (\<lambda>p. byPid B (pid p) = None) (processes A)"
  by (simp add: diffSnapshots_def carried_append added_events_carry removed_events_not_added)

lemma foldl_indexStep_byPid:
  "dom (fst (foldl indexStep acc ps)) = dom (fst acc) \<union> pid ` set ps"
  by (induction ps arbitrary: acc) (auto simp: indexStep_def split: prod.splits)

lemma pidSet_buildSnapshot: "pidSet (buildSnapshot now ps) = pid ` set ps"
proof -
  obtain bp cb pg where f: "foldl indexStep (Map.empty, Map.empty, Map.empty) ps = (bp, cb, pg)"
    by (cases "foldl indexStep (Map.empty, Map.empty, Map.empty) ps") auto
  have "dom bp = pid ` set ps"
    using foldl_indexStep_byPid [of "(Map.empty, Map.empty, Map.empty)" ps] f by simp
  then show ?thesis
    by (simp add: pidSet_def buildSnapshot_def f)
qed

lemma processes_buildSnapshot: "processes (buildSnapshot now ps) = ps"
  by (simp add: buildSnapshot_def split: prod.splits)

text \<open>
  C7. For every snapshot \<open>S\<close>, the difference of no previous snapshot and \<open>S\<close> is exactly
  one Added event for each record of \<open>S\<close>, in the order of the records: as many events as
  \<open>S\<close> has records, and no Removed or Updated event among them.
\<close>

theorem diffSnapshots_first:
  "diffSnapshots None S =
     map (\<lambda>proc. \<lparr>etype = Added, process = proc, previous = None\<rparr>) (processes S) \<and>
   length (diffSnapshots None S) = length (processes S) \<and>
   carried Added (diffSnapshots None S) = processes S \<and>
   carried Removed (diffSnapshots None S) = [] \<and>
   carried Updated (diffSnapshots None S) = []"
  by (simp add: diffSnapshots_def carried_def filter_map comp_def)

theorem diffSnapshots_first_witness:
  "diffSnapshots None (buildSnapshot 0 [procInit, procShell]) =
     [\<lparr>etype = Added, process = procInit, previous = None\<rparr>,
      \<lparr>etype = Added, process = procShell, previous = None\<rparr>]"
  using diffSnapshots_first [of "buildSnapshot 0 [procInit, procShell]"]
  by (simp add: processes_buildSnapshot)

text \<open>
  C8. For any two snapshots \<open>A\<close> and \<open>B\<close>, the processes carried by the Removed events of
  the difference from \<open>A\<close> to \<open>B\<close> are the processes carried by the Added events of the
  difference from \<open>B\<close> to \<open>A\<close>, as lists and so as sets, also when both are restricted to
  the pids in the symmetric difference of the two pid sets. For snapshots built by
  \<open>buildSnapshot\<close> the restriction removes nothing: the pids carried are the pids of \<open>A\<close>
  that \<open>B\<close> does not have.
\<close>

theorem diff_removed_is_added_reversed:
  "carried Removed (diffSnapshots (Some A) B) = carried Added (diffSnapshots (Some B) A) \<and>
   {p \<in> set (carried Removed (diffSnapshots (Some A) B)). pid p \<in> symDiff (pidSet A) (pidSet B)} =
   {p \<in> set (carried Added (diffSnapshots (Some B) A)). pid p \<in> symDiff (pidSet A) (pidSet B)} \<and>
   pid ` set (carried Removed (diffSnapshots (Some (buildSnapshot t ps)) (buildSnapshot u qs)))
     = pid ` set ps - pid ` set qs \<and>
   pid ` set ps - pid ` set qs \<subseteq>
     symDiff (pidSet (buildSnapshot t ps)) (pidSet (buildSnapshot u qs))"
proof -
  have eq: "carried Removed (diffSnapshots (Some A) B) = carried Added (diffSnapshots (Some B) A)"
    by (simp add: carried_Removed_diff carried_Added_diff)
  have "byPid (buildSnapshot u qs) (pid p) = None \<longleftrightarrow> pid p \<notin> pid ` set qs"
    for p :: ProcessInfo
    using pidSet_buildSnapshot [of u qs] by (auto simp: pidSet_def domIff)
  then have pids:
    "pid ` set (carried Removed (diffSnapshots (Some (buildSnapshot t ps)) (buildSnapshot u qs)))
       = pid ` set ps - pid ` set qs"
    by (auto simp: carried_Removed_diff processes_buildSnapshot)
  show ?thesis
    using eq pids by (simp add: pidSet_buildSnapshot symDiff_def)
qed

theorem diff_removed_is_added_reversed_witness:
  "carried Removed (diffSnapshots (Some (buildSnapshot 0 [procInit, procShell]))
      (buildSnapshot 1 [procInit])) = [procShell] \<and>
   carried Added (diffSnapshots (Some (buildSnapshot 1 [procInit]))
      (buildSnapshot 0 [procInit, procShell])) = [procShell]"
  using diff_removed_is_added_reversed
    [of "buildSnapshot 0 [procInit, procShell]" "buildSnapshot 1 [procInit]"]
  by (simp add: carried_Removed_diff buildSnapshot_def indexStep_def procInit_def procShell_def)

subsection \<open>Filtering\<close>

text \<open>
  C5. For every process record, current user and pair of filter flags, \<open>isVisible\<close> holds
  if and only if the owner is the invoking user or show-other-users is on, and the owner
  is not a system account (a member of the fixed list or a name beginning with an
  underscore) or show-system-processes is on; and the visible set of a provider holding a
  snapshot is the set of the snapshot's records for which this holds.
\<close>

theorem isVisible_iff:
  "(isVisible this proc \<longleftrightarrow>
      (user proc = currentUser this \<or> showOtherUsers this) \<and>
      (\<not> (user proc \<in> set systemUsers \<or> (\<exists>t. user proc = CHR ''_'' # t)) \<or>
       showSystemProcesses this)) \<and>
   (snapshot this = Some snap \<longrightarrow>
      (proc \<in> set (getVisibleProcesses this) \<longleftrightarrow>
         proc \<in> set (processes snap) \<and>
         (user proc = currentUser this \<or> showOtherUsers this) \<and>
         (\<not> (user proc \<in> set systemUsers \<or> (\<exists>t. user proc = CHR ''_'' # t)) \<or>
          showSystemProcesses this)))"
  by (auto simp: isVisible_def isSystemUser_def getVisibleProcesses_def prefix_def)

theorem isVisible_iff_witness:
  "snapshot providerAlice = Some (buildSnapshot 0 [procInit, procShell]) \<and>
   getVisibleProcesses providerAlice = [procShell] \<and>
   isVisible providerAlice procShell \<and> \<not> isVisible providerAlice procInit"
  using isVisible_iff [of providerAlice procShell "buildSnapshot 0 [procInit, procShell]"]
    isVisible_iff [of providerAlice procInit "buildSnapshot 0 [procInit, procShell]"]
  by (simp add: providerAlice_def procInit_def procShell_def getVisibleProcesses_def
      processes_buildSnapshot isVisible_def isSystemUser_def systemUsers_def)

text \<open>
  C4, as amended. For every process record whose owner is a system account: when
  show-system-processes is off the record is excluded, whatever the show-other-users flag
  is; when show-system-processes is on the record is included exactly if show-other-users
  is on or the owner is the invoking user.
\<close>

theorem system_owner_visibility:
  assumes "isSystemUser (user proc)"
  shows "(\<not> showSystemProcesses this \<longrightarrow> \<not> isVisible this proc) \<and>
         (showSystemProcesses this \<longrightarrow>
            (isVisible this proc \<longleftrightarrow> showOtherUsers this \<or> user proc = currentUser this))"
  using assms by (auto simp: isVisible_def)

theorem system_owner_visibility_witness:
  "isSystemUser (user procInit) \<and> showSystemProcesses providerAlice \<and>
   isVisible (providerAlice\<lparr>showOtherUsers := True\<rparr>) procInit \<and>
   \<not> isVisible (providerAlice\<lparr>showSystemProcesses := False, showOtherUsers := True\<rparr>) procInit"
proof -
  have h: "isSystemUser (user procInit)"
    by (simp add: isSystemUser_def systemUsers_def procInit_def)
  show ?thesis
    using h system_owner_visibility [OF h, of "providerAlice\<lparr>showOtherUsers := True\<rparr>"]
      system_owner_visibility
        [OF h, of "providerAlice\<lparr>showSystemProcesses := False, showOtherUsers := True\<rparr>"]
    by (simp add: providerAlice_def)
qed

text \<open>The claim as stated fails: with show-system-processes on and show-other-users off,
  a process of the system account \<open>root\<close> is not visible to the user \<open>alice\<close>.\<close>

theorem system_owner_counterexample:
  "isSystemUser (user procInit) \<and> showSystemProcesses providerAlice \<and>
   \<not> showOtherUsers providerAlice \<and> \<not> isVisible providerAlice procInit"
  by (simp add: isVisible_def isSystemUser_def systemUsers_def procInit_def providerAlice_def)

subsection \<open>The path trie\<close>

lemmas string_defs =
  splitWhiteSpace_def split_def splitBy.simps isWhiteSpace_def substringFrom_def

lemma segments_A:
  "getPathSegments (withArgs a ''/System/Library/Frameworks/A'') =
   [''System'', ''Library'', ''Frameworks'', ''A'']"
  by (simp add: getPathSegments_def withArgs_def string_defs Let_def)

lemma segments_B:
  "getPathSegments (withArgs a ''/System/Library/Frameworks/B'') =
   [''System'', ''Library'', ''Frameworks'', ''B'']"
  by (simp add: getPathSegments_def withArgs_def string_defs Let_def)

lemma segments_C:
  "getPathSegments (withArgs a ''/usr/bin/C'') = [''usr'', ''bin'', ''C'']"
  by (simp add: getPathSegments_def withArgs_def string_defs Let_def)

lemma buildTrie_three:
  "buildTrie [withArgs a ''/System/Library/Frameworks/A'',
              withArgs b ''/System/Library/Frameworks/B'', withArgs c ''/usr/bin/C''] =
   TrieNode [] []
    [(''System'', TrieNode ''System'' ''System''
        [(''Library'', TrieNode ''Library'' ''System/Library''
           [(''Frameworks'', TrieNode ''Frameworks'' ''System/Library/Frameworks'' []
               [withArgs a ''/System/Library/Frameworks/A'',
                withArgs b ''/System/Library/Frameworks/B'']
               2 (cpu a + cpu b) (rss a + rss b))]
           [] 2 (cpu a + cpu b) (rss a + rss b))]
        [] 2 (cpu a + cpu b) (rss a + rss b)),
     (''usr'', TrieNode ''usr'' ''usr''
        [(''bin'', TrieNode ''bin'' ''usr/bin'' [] [withArgs c ''/usr/bin/C''] 1 (cpu c) (rss c))]
        [] 1 (cpu c) (rss c))]
    [] 3 (cpu a + cpu b + cpu c) (rss a + rss b + rss c)"
  by (simp add: buildTrie_def segments_A segments_B segments_C folderSegments_def
      createTrieNode_def has_def Let_def)
     (simp add: withArgs_def)

text \<open>
  C9. For three processes whose full command lines are \<open>/System/Library/Frameworks/A\<close>,
  \<open>/System/Library/Frameworks/B\<close> and \<open>/usr/bin/C\<close> (their other fields are arbitrary),
  building the trie and collapsing chains gives a root with exactly two child folders: one
  displayed as \<open>System/Library/Frameworks\<close> that holds the first two processes, with
  count 2 and aggregate cpu the sum of their cpu values, and one displayed as \<open>usr/bin\<close>
  that holds the third. The provider shows them as these two folders, in this order, and
  no folder below the root has exactly one child folder and no direct process.
\<close>

theorem collapsed_trie_three:
  "collapseChains (buildTrie [withArgs a ''/System/Library/Frameworks/A'',
      withArgs b ''/System/Library/Frameworks/B'', withArgs c ''/usr/bin/C'']) =
     TrieNode [] []
       [(''System'', TrieNode ''System/Library/Frameworks'' ''System/Library/Frameworks'' []
           [withArgs a ''/System/Library/Frameworks/A'', withArgs b ''/System/Library/Frameworks/B'']
           2 (cpu a + cpu b) (rss a + rss b)),
        (''usr'', TrieNode ''usr/bin'' ''usr/bin'' [] [withArgs c ''/usr/bin/C''] 1 (cpu c) (rss c))]
       [] 3 (cpu a + cpu b + cpu c) (rss a + rss b + rss c) \<and>
   getTrieNodeChildren (collapseChains (buildTrie [withArgs a ''/System/Library/Frameworks/A'',
      withArgs b ''/System/Library/Frameworks/B'', withArgs c ''/usr/bin/C''])) =
     [FolderNode ''System/Library/Frameworks'' ''System/Library/Frameworks'' 2
        (cpu a + cpu b) (rss a + rss b),
      FolderNode ''usr/bin'' ''usr/bin'' 1 (cpu c) (rss c)] \<and>
   filter singleChain (foldersBelow (collapseChains (buildTrie
      [withArgs a ''/System/Library/Frameworks/A'',
       withArgs b ''/System/Library/Frameworks/B'', withArgs c ''/usr/bin/C'']))) = []"
  by (simp add: buildTrie_three getTrieNodeChildren_def singleChain_def)

theorem collapsed_trie_three_witness:
  "map (\<lambda>kv. (segment (snd kv), totalCount (snd kv), totalCpu (snd kv)))
     (children (collapseChains (buildTrie [withArgs procInit ''/System/Library/Frameworks/A'',
        withArgs procShell ''/System/Library/Frameworks/B'', withArgs procShell ''/usr/bin/C'']))) =
   [(''System/Library/Frameworks'', 2, 5), (''usr/bin'', 1, 5)]"
  using collapsed_trie_three [of procInit procShell procShell]
  by (simp add: procInit_def procShell_def)

subsection \<open>The line parser\<close>



























subsection \<open>Signals to one process\<close>

text \<open>
  C3. With confirmation disabled, \<open>terminatePid\<close> is \<open>sendSignal\<close> with SIGTERM and
  \<open>forceKillPid\<close> is \<open>sendSignal\<close> with SIGKILL, for every pid. \<open>sendSignal\<close> makes one
  call of \<open>process.kill\<close> and returns true when the call returns or throws an error whose
  message names ESRCH (no such process); it returns false, and shows an error, when the
  message names EPERM (permission denied) and when it names neither. The messages of the
  two system errors, \<open>kill ESRCH\<close> and \<open>kill EPERM\<close>, fall in the first and the second
  class.
\<close>

theorem single_pid_kill_result:
  assumes "kill (world st) p sg = (outcome, w)"
  shows "terminatePid kill answer p False st = sendSignal kill p SIGTERM st \<and>
         forceKillPid kill answer p False st = sendSignal kill p SIGKILL st \<and>
         (outcome = Delivered \<longrightarrow> fst (sendSignal kill p sg st)) \<and>
         (\<forall>msg. outcome = Threw msg \<and> includesStr msg ''ESRCH'' \<longrightarrow> fst (sendSignal kill p sg st)) \<and>
         (\<forall>msg. outcome = Threw msg \<and> \<not> includesStr msg ''ESRCH'' \<and> includesStr msg ''EPERM'' \<longrightarrow>
            \<not> fst (sendSignal kill p sg st) \<and>
            notices (snd (sendSignal kill p sg st)) = notices st @ [PermissionDenied p]) \<and>
         (\<forall>msg. outcome = Threw msg \<and> \<not> includesStr msg ''ESRCH'' \<and> \<not> includesStr msg ''EPERM'' \<longrightarrow>
            \<not> fst (sendSignal kill p sg st) \<and>
            notices (snd (sendSignal kill p sg st)) = notices st @ [FailedToSignal p msg]) \<and>
         kills (snd (sendSignal kill p sg st)) = kills st @ [(p, sg, outcome)] \<and>
         includesStr ''kill ESRCH'' ''ESRCH'' \<and> \<not> includesStr ''kill EPERM'' ''ESRCH'' \<and>
         includesStr ''kill EPERM'' ''EPERM''"
  using assms
  by (auto simp: terminatePid_def forceKillPid_def sendSignal_def Let_def split: KillOutcome.splits)

theorem single_pid_kill_result_witness:
  "terminatePid killDemo None 3 False noEffects =
     (False, \<lparr>world = (), kills = [(3, SIGTERM, Threw ''kill EPERM'')], notices = [PermissionDenied 3]\<rparr>) \<and>
   forceKillPid killDemo None 9 False noEffects =
     (True, \<lparr>world = (), kills = [(9, SIGKILL, Threw ''kill ESRCH'')], notices = [AlreadyExited 9]\<rparr>) \<and>
   terminatePid killDemo None 5 False noEffects =
     (True, \<lparr>world = (), kills = [(5, SIGTERM, Delivered)], notices = []\<rparr>)"
proof -
  have a: "killDemo (world noEffects) 3 SIGTERM = (Threw ''kill EPERM'', ())"
    and b: "killDemo (world noEffects) 9 SIGKILL = (Threw ''kill ESRCH'', ())"
    and c: "killDemo (world noEffects) 5 SIGTERM = (Delivered, ())"
    by (simp_all add: killDemo_def)
  show ?thesis
    using single_pid_kill_result [where kill = killDemo and st = noEffects and answer = None, OF a]
      single_pid_kill_result [where kill = killDemo and st = noEffects and answer = None, OF b]
      single_pid_kill_result [where kill = killDemo and st = noEffects and answer = None, OF c]
    by (simp add: sendSignal_def killDemo_def noEffects_def)
qed

subsection \<open>The descendant closure\<close>

lemma descendantsLoop_Nil: "descendantsLoop m [] result = Some result"
  by (subst descendantsLoop.simps) simp

lemma descendantsLoop_snoc:
  "descendantsLoop m (st @ [p]) result =
   descendantsLoop m (st @ childrenOf m p) (result @ childrenOf m p)"
  by (subst descendantsLoop.simps) simp

lemma finite_childRel:
  assumes "finite (dom m)"
  shows "finite (childRel m)"
proof -
  have "childRel m \<subseteq> (\<Union>p \<in> dom m. set (childrenOf m p) \<times> {p})"
  proof
    fix x
    assume "x \<in> childRel m"
    then obtain c p where x: "x = (c, p)" and c: "c \<in> set (childrenOf m p)"
      by (auto simp: childRel_def)
    from c have "p \<in> dom m"
      by (cases "m p") (auto simp: childrenOf_def)
    with x c show "x \<in> (\<Union>p \<in> dom m. set (childrenOf m p) \<times> {p})"
      by blast
  qed
  moreover have "finite (\<Union>p \<in> dom m. set (childrenOf m p) \<times> {p})"
    using assms by simp
  ultimately show ?thesis
    by (rule finite_subset)
qed

lemma wf_childRel:
  assumes "finite (dom m)" and "acyclic (childRel m)"
  shows "wf (childRel m)"
  using assms by (simp add: finite_acyclic_wf finite_childRel)

lemma stack_step_decreases:
  "(mset (st @ childrenOf m p), mset (st @ [p])) \<in> mult1 (childRel m)"
proof -
  have "mset (st @ [p]) = add_mset p (mset st)"
    and "mset (st @ childrenOf m p) = mset st + mset (childrenOf m p)"
    and "\<forall>b. b \<in># mset (childrenOf m p) \<longrightarrow> (b, p) \<in> childRel m"
    by (simp_all add: childRel_def)
  then show ?thesis
    unfolding mult1_def by blast
qed

lemma below_step:
  "{d. \<exists>s \<in> set (st @ [p]). (d, s) \<in> (childRel m)\<^sup>+} =
   set (childrenOf m p) \<union> {d. \<exists>s \<in> set (st @ childrenOf m p). (d, s) \<in> (childRel m)\<^sup>+}"
proof -
  have "(d, p) \<in> (childRel m)\<^sup>+ \<longleftrightarrow>
        d \<in> set (childrenOf m p) \<or> (\<exists>c \<in> set (childrenOf m p). (d, c) \<in> (childRel m)\<^sup>+)" for d
  proof
    assume "(d, p) \<in> (childRel m)\<^sup>+"
    then show "d \<in> set (childrenOf m p) \<or> (\<exists>c \<in> set (childrenOf m p). (d, c) \<in> (childRel m)\<^sup>+)"
      by (cases rule: tranclE) (auto simp: childRel_def)
  next
    assume "d \<in> set (childrenOf m p) \<or> (\<exists>c \<in> set (childrenOf m p). (d, c) \<in> (childRel m)\<^sup>+)"
    then show "(d, p) \<in> (childRel m)\<^sup>+"
      by (auto simp: childRel_def intro: trancl_into_trancl)
  qed
  then show ?thesis by auto
qed

lemma descendantsLoop_total:
  assumes "wf (childRel m)"
  shows "\<exists>ds. (\<forall>result. descendantsLoop m stack result = Some (result @ ds)) \<and>
              set ds = {d. \<exists>s \<in> set stack. (d, s) \<in> (childRel m)\<^sup>+} \<and>
              childrenLater m ds"
proof -
  have "wf (inv_image (mult1 (childRel m)) mset)"
    by (intro wf_inv_image wf_mult1 assms)
  then show ?thesis
  proof (induction stack rule: wf_induct_rule)
  case (less stack)
  show ?case
  proof (cases stack rule: rev_cases)
    case Nil
    then show ?thesis
      by (auto simp: descendantsLoop_Nil childrenLater_def intro!: exI [of _ "[]"])
  next
    case (snoc st p)
    let ?cs = "childrenOf m p"
    have "(st @ ?cs, stack) \<in> inv_image (mult1 (childRel m)) mset"
      using stack_step_decreases [of st m p] snoc by (simp add: inv_image_def)
    from less [OF this] obtain ds
      where run: "\<And>result. descendantsLoop m (st @ ?cs) result = Some (result @ ds)"
        and below: "set ds = {d. \<exists>s \<in> set (st @ ?cs). (d, s) \<in> (childRel m)\<^sup>+}"
        and later: "childrenLater m ds"
      by blast
    have a: "\<forall>result. descendantsLoop m stack result = Some (result @ (?cs @ ds))"
      using run snoc by (simp add: descendantsLoop_snoc)
    have b: "set (?cs @ ds) = {d. \<exists>s \<in> set stack. (d, s) \<in> (childRel m)\<^sup>+}"
      using below snoc below_step [of st p m] by simp
    have c: "childrenLater m (?cs @ ds)"
      unfolding childrenLater_def
    proof (intro allI impI ballI)
      fix i c
      assume i: "i < length (?cs @ ds)" and c: "c \<in> set (childrenOf m ((?cs @ ds) ! i))"
      show "\<exists>j. i < j \<and> j < length (?cs @ ds) \<and> (?cs @ ds) ! j = c"
      proof (cases "i < length ?cs")
        case True
        then have "(?cs @ ds) ! i \<in> set ?cs"
          by (simp add: nth_append)
        with c have "c \<in> set ds"
          unfolding below by (auto simp: childRel_def)
        then obtain k where "k < length ds" "ds ! k = c"
          by (auto simp: in_set_conv_nth)
        with True show ?thesis
          by (intro exI [of _ "length ?cs + k"]) (simp add: nth_append)
      next
        case False
        with i c have "i - length ?cs < length ds" "c \<in> set (childrenOf m (ds ! (i - length ?cs)))"
          by (auto simp: nth_append)
        with later obtain k where "i - length ?cs < k" "k < length ds" "ds ! k = c"
          unfolding childrenLater_def by blast
        with False show ?thesis
          by (intro exI [of _ "length ?cs + k"]) (auto simp: nth_append)
      qed
    qed
    from a b c show ?thesis by blast
  qed
qed
qed

lemma descendantsLoop_self_parent:
  assumes "descendantsLoop m stack result = Some y"
  shows "\<not> (childrenOf m 0 = [0] \<and> stack \<noteq> [] \<and> set stack \<subseteq> {0})"
proof (rule descendantsLoop.raw_induct
    [where P = "\<lambda>m stack result y. \<not> (childrenOf m 0 = [0] \<and> stack \<noteq> [] \<and> set stack \<subseteq> {0})",
     OF _ assms])
  fix loop :: "(int \<rightharpoonup> int list) \<Rightarrow> int list \<Rightarrow> int list \<Rightarrow> int list option"
    and m stack result y
  assume IH: "\<And>m stack result y. loop m stack result = Some y \<Longrightarrow>
      \<not> (childrenOf m 0 = [0] \<and> stack \<noteq> [] \<and> set stack \<subseteq> {0})"
    and step: "(if 0 < length stack
                then loop m (butlast stack @ childrenOf m (last stack))
                       (result @ childrenOf m (last stack))
                else Some result) = Some y"
  show "\<not> (childrenOf m 0 = [0] \<and> stack \<noteq> [] \<and> set stack \<subseteq> {0})"
  proof
    assume a: "childrenOf m 0 = [0] \<and> stack \<noteq> [] \<and> set stack \<subseteq> {0}"
    then have l: "last stack = 0"
      using last_in_set by blast
    have "set (butlast stack) \<subseteq> {0}"
      using a in_set_butlastD by fastforce
    with a l have "butlast stack @ childrenOf m (last stack) \<noteq> []"
      and "set (butlast stack @ childrenOf m (last stack)) \<subseteq> {0}"
      by simp_all
    moreover from step a
    have "loop m (butlast stack @ childrenOf m (last stack)) (result @ childrenOf m (last stack)) = Some y"
      by simp
    ultimately show False
      using IH a by blast
  qed
qed

lemma chain_children:
  "childrenByPpid chainSnapshot = [0 \<mapsto> [1], 1 \<mapsto> [2], 2 \<mapsto> [3], 3 \<mapsto> [4]]"
  by (simp add: chainSnapshot_def buildSnapshot_def indexStep_def appendAt_def)

lemma chain_finite: "finite (dom (childrenByPpid chainSnapshot))"
  by (simp add: chain_children)

lemma chain_acyclic: "acyclic (childRel (childrenByPpid chainSnapshot))"
proof -
  have "childRel (childrenByPpid chainSnapshot) \<subseteq> measure (\<lambda>x. nat (10 - x))"
    by (auto simp: childRel_def childrenOf_def chain_children split: if_splits)
  then have "wf (childRel (childrenByPpid chainSnapshot))"
    by (rule wf_subset [OF wf_measure])
  then show ?thesis
    by (rule wf_acyclic)
qed

lemma chain_descendants: "getDescendants 1 chainSnapshot = Some [2, 3, 4]"
  by (simp add: getDescendants_def chain_children descendantsLoop.simps childrenOf_def)

lemma chain_descendants_inner: "getDescendants 2 chainSnapshot = Some [3, 4]"
  by (simp add: getDescendants_def chain_children descendantsLoop.simps childrenOf_def)

text \<open>
  C2, as amended. For every snapshot whose children-by-parent index is finite and whose
  parent links are acyclic, and for every pid, the descendant-closure computation
  \<open>getDescendants\<close> terminates and returns a list.
\<close>

theorem getDescendants_terminates:
  assumes "finite (dom (childrenByPpid snap))" and "acyclic (childRel (childrenByPpid snap))"
  shows "\<exists>ds. getDescendants p snap = Some ds"
  using descendantsLoop_total [OF wf_childRel [OF assms], of "[p]"]
  by (auto simp: getDescendants_def)

theorem getDescendants_terminates_witness:
  "finite (dom (childrenByPpid chainSnapshot)) \<and>
   acyclic (childRel (childrenByPpid chainSnapshot)) \<and>
   getDescendants 2 chainSnapshot = Some [3, 4]"
  using getDescendants_terminates [OF chain_finite chain_acyclic, of 2]
  by (simp add: chain_finite chain_acyclic chain_descendants_inner)

text \<open>Without the acyclicity the traversal need not end: in the snapshot built from a
  listing whose process 0 has the parent 0, the index is finite and the stack never
  empties, so \<open>getDescendants\<close> does not return.\<close>

theorem getDescendants_cycle_counterexample:
  "finite (dom (childrenByPpid (buildSnapshot 0 [kernelTask]))) \<and>
   getDescendants 0 (buildSnapshot 0 [kernelTask]) = None"
proof -
  let ?m = "childrenByPpid (buildSnapshot 0 [kernelTask])"
  have m: "?m = [0 \<mapsto> [0]]"
    by (simp add: buildSnapshot_def indexStep_def appendAt_def kernelTask_def)
  have c: "childrenOf ?m 0 = [0]"
    by (simp add: m childrenOf_def)
  have "descendantsLoop ?m [0] [] \<noteq> Some y" for y
    using descendantsLoop_self_parent [of ?m "[0]" "[]" y] c by auto
  then have "descendantsLoop ?m [0] [] = None"
    by (cases "descendantsLoop ?m [0] []") auto
  then have "getDescendants 0 (buildSnapshot 0 [kernelTask]) = None"
    by (simp add: getDescendants_def)
  moreover have "finite (dom ?m)"
    by (simp add: m)
  ultimately show ?thesis
    by simp
qed

subsection \<open>Terminating a subtree\<close>

lemma sendSignal_effect:
  assumes "sendSignal kill p sg st = (ok, st')"
  shows "\<exists>outcome. kills st' = kills st @ [(p, sg, outcome)] \<and> ok = accepted outcome"
  using assms
  by (auto simp: sendSignal_def accepted_def Let_def split: prod.splits KillOutcome.splits if_splits)

lemma signalEach_effect:
  assumes "signalEach kill xs allOk st = (ok, st')"
  shows "\<exists>new. kills st' = kills st @ new \<and> map fst new = xs \<and>
               map (\<lambda>e. fst (snd e)) new = replicate (length xs) SIGTERM \<and>
               ok = (allOk \<and> list_all (\<lambda>e. accepted (snd (snd e))) new)"
  using assms
proof (induction xs arbitrary: allOk st)
  case Nil
  then show ?case by simp
next
  case (Cons x xs)
  obtain ok1 st1 where s1: "sendSignal kill x SIGTERM st = (ok1, st1)"
    by (cases "sendSignal kill x SIGTERM st") auto
  with Cons.prems
  have rest: "signalEach kill xs (if \<not> ok1 then False else allOk) st1 = (ok, st')"
    by simp
  from sendSignal_effect [OF s1] obtain outcome
    where k1: "kills st1 = kills st @ [(x, SIGTERM, outcome)]" and o1: "ok1 = accepted outcome"
    by blast
  from Cons.IH [OF rest] obtain new
    where "kills st' = kills st1 @ new" "map fst new = xs"
      "map (\<lambda>e. fst (snd e)) new = replicate (length xs) SIGTERM"
      "ok = ((if \<not> ok1 then False else allOk) \<and> list_all (\<lambda>e. accepted (snd (snd e))) new)"
    by blast
  with k1 o1 show ?case
    by (intro exI [of _ "(x, SIGTERM, outcome) # new"]) auto
qed

lemma later_reversed:
  assumes later: "childrenLater m ds" and kids: "set (childrenOf m p) \<subseteq> set ds"
  shows "signalledBeforeParent m (rev ds @ [p])"
  unfolding signalledBeforeParent_def
proof (intro allI impI ballI)
  fix j c
  assume j: "j < length (rev ds @ [p])" and c: "c \<in> set (childrenOf m ((rev ds @ [p]) ! j))"
  show "\<exists>i < j. (rev ds @ [p]) ! i = c"
  proof (cases "j < length ds")
    case True
    then have "(rev ds @ [p]) ! j = ds ! (length ds - Suc j)"
      by (simp add: nth_append rev_nth)
    moreover have "length ds - Suc j < length ds"
      using True by simp
    ultimately obtain k
      where k: "length ds - Suc j < k" "k < length ds" "ds ! k = c"
      using c later unfolding childrenLater_def by fastforce
    then have "length ds - Suc k < j" "(rev ds @ [p]) ! (length ds - Suc k) = c"
      using True by (auto simp: nth_append rev_nth)
    then show ?thesis by blast
  next
    case False
    with j have jl: "j = length ds" by simp
    then have "(rev ds @ [p]) ! j = p" by (simp add: nth_append)
    with c kids have "c \<in> set (rev ds)" by auto
    then obtain i where "i < length (rev ds)" "rev ds ! i = c"
      unfolding in_set_conv_nth by blast
    with jl show ?thesis
      by (intro exI [of _ i]) (simp add: nth_append)
  qed
qed

text \<open>
  C1. For every snapshot whose children-by-parent index is finite with acyclic parent
  links, every target pid and every behaviour of the system, \<open>terminateSubtree\<close> with
  confirmation disabled returns. The pids it signals are, in order, the reversed list of
  descendants and then the target, all with SIGTERM, whatever the outcomes of the single
  signals are; the descendants are exactly the pids below the target in the index, and
  the target is not among them, so every descendant is signalled before the target. When
  a process is signalled, each of its children has been signalled before. The result is
  true if and only if every single call either was delivered or threw an error naming
  ESRCH.
\<close>

theorem terminateSubtree_bottom_up:
  assumes "finite (dom (childrenByPpid snap))" and "acyclic (childRel (childrenByPpid snap))"
  shows "\<exists>ds ok st' new.
     getDescendants p snap = Some ds \<and>
     set ds = {d. (d, p) \<in> (childRel (childrenByPpid snap))\<^sup>+} \<and> p \<notin> set ds \<and>
     terminateSubtree kill answer p snap False st = Some (ok, st') \<and>
     kills st' = kills st @ new \<and>
     map fst new = rev ds @ [p] \<and>
     map (\<lambda>e. fst (snd e)) new = replicate (length ds + 1) SIGTERM \<and>
     signalledBeforeParent (childrenByPpid snap) (map fst new) \<and>
     ok = list_all (\<lambda>e. snd (snd e) = Delivered \<or>
                        (\<exists>msg. snd (snd e) = Threw msg \<and> includesStr msg ''ESRCH'')) new"
proof -
  let ?m = "childrenByPpid snap"
  from descendantsLoop_total [OF wf_childRel [OF assms], of "[p]"] obtain ds
    where run: "getDescendants p snap = Some ds"
      and below: "set ds = {d. (d, p) \<in> (childRel ?m)\<^sup>+}"
      and later: "childrenLater ?m ds"
    by (auto simp: getDescendants_def)
  have notin: "p \<notin> set ds"
  proof
    assume "p \<in> set ds"
    then have "(p, p) \<in> (childRel ?m)\<^sup>+"
      using below by simp
    with assms(2) show False
      by (simp add: acyclic_def)
  qed
  have "set (childrenOf ?m p) \<subseteq> set ds"
  proof
    fix c
    assume "c \<in> set (childrenOf ?m p)"
    then have "(c, p) \<in> childRel ?m"
      by (simp add: childRel_def)
    then have "(c, p) \<in> (childRel ?m)\<^sup>+"
      by (rule r_into_trancl)
    then show "c \<in> set ds"
      using below by simp
  qed
  with later have order: "signalledBeforeParent ?m (rev ds @ [p])"
    by (rule later_reversed)
  obtain allOk st1 where each: "signalEach kill (rev ds) True st = (allOk, st1)"
    by (cases "signalEach kill (rev ds) True st") auto
  obtain ok2 st2 where fin: "sendSignal kill p SIGTERM st1 = (ok2, st2)"
    by (cases "sendSignal kill p SIGTERM st1") auto
  from signalEach_effect [OF each] obtain new1
    where n1: "kills st1 = kills st @ new1" "map fst new1 = rev ds"
      "map (\<lambda>e. fst (snd e)) new1 = replicate (length (rev ds)) SIGTERM"
      "allOk = (True \<and> list_all (\<lambda>e. accepted (snd (snd e))) new1)"
    by blast
  from sendSignal_effect [OF fin] obtain outcome
    where n2: "kills st2 = kills st1 @ [(p, SIGTERM, outcome)]" "ok2 = accepted outcome"
    by blast
  let ?new = "new1 @ [(p, SIGTERM, outcome)]"
  have acc: "accepted x = (x = Delivered \<or> (\<exists>msg. x = Threw msg \<and> includesStr msg ''ESRCH''))" for x
    by (cases x) (simp_all add: accepted_def)
  have res: "terminateSubtree kill answer p snap False st =
             Some (if \<not> ok2 then False else allOk, st2)"
    by (simp add: terminateSubtree_def run each fin)
  have "kills st2 = kills st @ ?new" "map fst ?new = rev ds @ [p]"
    "map (\<lambda>e. fst (snd e)) ?new = replicate (length ds + 1) SIGTERM"
    using n1 n2 by (simp_all add: replicate_append_same)
  moreover have "signalledBeforeParent ?m (map fst ?new)"
    using order n1(2) by simp
  moreover have "(if \<not> ok2 then False else allOk) =
      list_all (\<lambda>e. snd (snd e) = Delivered \<or>
                     (\<exists>msg. snd (snd e) = Threw msg \<and> includesStr msg ''ESRCH'')) ?new"
    using n1(4) n2(2) by (auto simp: acc)
  ultimately show ?thesis
    using run below notin res by blast
qed

theorem terminateSubtree_bottom_up_witness:
  "finite (dom (childrenByPpid chainSnapshot)) \<and>
   acyclic (childRel (childrenByPpid chainSnapshot)) \<and>
   getDescendants 1 chainSnapshot = Some [2, 3, 4] \<and>
   terminateSubtree killDemo None 1 chainSnapshot False noEffects =
     Some (False, \<lparr>world = (),
                   kills = [(4, SIGTERM, Delivered), (3, SIGTERM, Threw ''kill EPERM''),
                            (2, SIGTERM, Delivered), (1, SIGTERM, Delivered)],
                   notices = [PermissionDenied 3]\<rparr>)"
  using terminateSubtree_bottom_up [OF chain_finite chain_acyclic, of 1 killDemo None noEffects]
  by (simp add: chain_finite chain_acyclic chain_descendants terminateSubtree_def
      sendSignal_def killDemo_def noEffects_def)

end
